theory Spec2Isabelle
  imports Complex_Main "HOL-Library.AList" "HOL-Library.Sublist" "HOL-Library.Log_Nat"
begin

section \<open>Python values shared by both scripts\<close>

text \<open>
  Python integers are unbounded and are modelled by \<open>int\<close>; Python strings by
  \<open>string\<close>, each \<open>char\<close> read as one code point below 256. A \<open>dict\<close> is an
  association list in insertion order: \<open>map_of\<close> reads a key, and
  \<open>AList.update\<close> overwrites a present key in place and appends an absent one at
  the end, which is what assignment to a Python dict does.
\<close>

datatype py_error = ZeroDivisionError | OverflowError | ValueError

type_synonym 'v pydict = "(string \<times> 'v) list"

text \<open>\<^verbatim>\<open>d.get(k, 0)\<close>, and the value \<^verbatim>\<open>d[k]\<close> of a \<^verbatim>\<open>defaultdict(int)\<close>.\<close>

definition dget :: "int pydict \<Rightarrow> string \<Rightarrow> int" where
  "dget d k = (case map_of d k of None \<Rightarrow> 0 | Some v \<Rightarrow> v)"

text \<open>\<^verbatim>\<open>d[k] += x\<close> on a \<^verbatim>\<open>defaultdict(int)\<close>.\<close>

definition dadd :: "int pydict \<Rightarrow> string \<Rightarrow> int \<Rightarrow> int pydict" where
  "dadd d k x = AList.update k (dget d k + x) d"

subsection \<open>Floats\<close>

text \<open>
  A Python float is a binary64 value; a finite one is modelled by the rational it
  stands for. \<open>ilog2 x\<close> is the binary exponent of a positive \<open>x\<close>, that is the
  \<open>e\<close> with \<open>2 powi e \<le> x < 2 powi (e + 1)\<close>.
\<close>

definition ilog2 :: "rat \<Rightarrow> int" where
  "ilog2 x =
     (let k = bitlen (fst (quotient_of x)) - bitlen (snd (quotient_of x))
      in if 2 powi k \<le> x then k else k - 1)"

text \<open>The nearest integer, a tie going to the even one.\<close>

definition round_half_even :: "rat \<Rightarrow> int" where
  "round_half_even r =
     (let f = \<lfloor>r\<rfloor>; d = r - of_int f
      in if d < 1 / 2 then f else if 1 / 2 < d then f + 1 else if even f then f else f + 1)"

text \<open>
  Rounding to the nearest binary64 value, ties to even: 53 significant bits, and below
  the least normal exponent -1022 the fixed spacing \<open>2 powi (- 1074)\<close> of the
  subnormal numbers. The exponent is not bounded above here; the operations below test
  the result against \<open>float_limit\<close>.
\<close>

definition round_binary64 :: "rat \<Rightarrow> rat" where
  "round_binary64 x =
     (if x = 0 then 0
      else let q = max (ilog2 \<bar>x\<bar>) (- 1022) - 52
           in sgn x * of_int (round_half_even (\<bar>x\<bar> / 2 powi q)) * 2 powi q)"

definition float_limit :: rat where
  "float_limit = 2 powi 1024"

text \<open>
  Python's \<^verbatim>\<open>/\<close> on two integers: \<^verbatim>\<open>ZeroDivisionError\<close> on a zero divisor,
  otherwise the correctly rounded quotient, and \<^verbatim>\<open>OverflowError\<close> when that is too
  large for a float.
\<close>

definition py_truediv :: "int \<Rightarrow> int \<Rightarrow> py_error + rat" where
  "py_truediv a b =
     (if b = 0 then Inl ZeroDivisionError
      else let r = round_binary64 (of_int a / of_int b)
           in if float_limit \<le> \<bar>r\<bar> then Inl OverflowError else Inr r)"




subsection \<open>Integers and text\<close>

text \<open>
  \<^verbatim>\<open>int(text)\<close> on a run of digits, and \<^verbatim>\<open>str(n)\<close> as an f-string formats an
  integer. CPython refuses both with \<^verbatim>\<open>ValueError\<close> when more than
  \<^verbatim>\<open>sys.int_max_str_digits\<close> digits are involved; the default is 4300.
\<close>

definition max_str_digits :: nat where
  "max_str_digits = 4300"

definition int_of_digits :: "string \<Rightarrow> int" where
  "int_of_digits ds = foldl (\<lambda>a c. 10 * a + (int (of_char c) - 48)) 0 ds"

definition py_int :: "string \<Rightarrow> py_error + int" where
  "py_int ds = (if max_str_digits < length ds then Inl ValueError else Inr (int_of_digits ds))"

function str_nat :: "nat \<Rightarrow> string" where
  "str_nat n =
     (if n < 10 then [char_of (48 + n)]
      else str_nat (n div 10) @ [char_of (48 + n mod 10)])"
  by pat_completeness auto
termination
  by (relation "measure (\<lambda>n. n)") auto

definition py_str :: "int \<Rightarrow> py_error + string" where
  "py_str i =
     (let digits = str_nat (nat \<bar>i\<bar>)
      in if max_str_digits < length digits then Inl ValueError
         else Inr (if i < 0 then CHR ''-'' # digits else digits))"

text \<open>
  A loop that computes one value per element and stops at the first exception, and
  the sequencing of two computations of which the first may raise.
\<close>

fun map_err :: "('a \<Rightarrow> py_error + 'b) \<Rightarrow> 'a list \<Rightarrow> py_error + 'b list" where
  "map_err f [] = Inr []"
| "map_err f (x # xs) =
     (case f x of
        Inl e \<Rightarrow> Inl e
      | Inr y \<Rightarrow> (case map_err f xs of Inl e \<Rightarrow> Inl e | Inr ys \<Rightarrow> Inr (y # ys)))"

definition then_err :: "py_error + 'a \<Rightarrow> ('a \<Rightarrow> py_error + 'b) \<Rightarrow> py_error + 'b" where
  "then_err m f = (case m of Inl e \<Rightarrow> Inl e | Inr v \<Rightarrow> f v)"

section \<open>analyze-trace.py: the CPU profile\<close>

subsection \<open>Node table and stack reconstruction\<close>

text \<open>
  One entry of \<^verbatim>\<open>nodes\<close> as \<^verbatim>\<open>extract_cpu_profile\<close> builds it (lines 39 to 46).
  A missing or null \<^verbatim>\<open>parent\<close> is \<open>None\<close>.
\<close>

record node =
  functionName :: string
  url :: string
  lineNumber :: "int option"
  columnNumber :: "int option"
  codeType :: string
  parent :: "int option"

type_synonym node_table = "(int \<times> node) list"

text \<open>
  The \<^verbatim>\<open>while\<close> loop of \<^verbatim>\<open>get_full_stack\<close> (lines 59 to 66) on its three
  variables. \<^verbatim>\<open>while current\<close> is false for \<^verbatim>\<open>None\<close> and for the integer 0. Every
  entry of the table is a dict of six keys, so \<^verbatim>\<open>if node\<close> tests only that the id
  is in the table.
\<close>

function get_full_stack_loop ::
  "node_table \<Rightarrow> int option \<Rightarrow> int set \<Rightarrow> (int \<times> string) list \<Rightarrow> (int \<times> string) list" where
  "get_full_stack_loop nodes current visited stack =
     (case current of
        None \<Rightarrow> stack
      | Some c \<Rightarrow>
          if c \<noteq> 0 \<and> c \<notin> visited then
            (case map_of nodes c of
               Some nd \<Rightarrow>
                 get_full_stack_loop nodes (parent nd) (insert c visited)
                   (stack @ [(c, functionName nd)])
             | None \<Rightarrow> stack)
          else stack)"
  by pat_completeness auto
termination
proof (relation "measure (\<lambda>(nodes, current, visited, stack). card (fst ` set nodes - visited))")
  show "wf (measure (\<lambda>(nodes, current, visited, stack). card (fst ` set nodes - visited)))"
    by simp
next
  fix nodes :: node_table and current :: "int option" and visited :: "int set"
    and stack :: "(int \<times> string) list" and c :: int and nd :: node
  assume live: "c \<noteq> 0 \<and> c \<notin> visited" and found: "map_of nodes c = Some nd"
  from found have "c \<in> fst ` set nodes"
    by (metis map_of_eq_None_iff option.distinct(1))
  with live have mem: "c \<in> fst ` set nodes - visited" by simp
  have fin: "finite (fst ` set nodes - visited)" by simp
  have "fst ` set nodes - insert c visited = (fst ` set nodes - visited) - {c}"
    by auto
  with card_Diff1_less [OF fin mem]
  have "card (fst ` set nodes - insert c visited) < card (fst ` set nodes - visited)"
    by simp
  then show "((nodes, parent nd, insert c visited, stack @ [(c, functionName nd)]),
              (nodes, current, visited, stack))
             \<in> measure (\<lambda>(nodes, current, visited, stack). card (fst ` set nodes - visited))"
    by simp
qed

definition get_full_stack :: "node_table \<Rightarrow> int \<Rightarrow> (int \<times> string) list" where
  "get_full_stack nodes node_id = get_full_stack_loop nodes (Some node_id) {} []"

subsection \<open>Aggregation\<close>

text \<open>The dict that \<^verbatim>\<open>analyze_samples\<close> returns (lines 105 to 111).\<close>

record analysis =
  self_samples :: "int pydict"
  self_time :: "int pydict"
  total_samples :: "int pydict"
  total_time :: "int pydict"
  call_tree :: "(int pydict) pydict"

definition empty_analysis :: analysis where
  "empty_analysis =
     \<lparr>self_samples = [], self_time = [], total_samples = [], total_time = [], call_tree = []\<rparr>"

text \<open>\<^verbatim>\<open>call_tree[parent_name][name] += 1\<close> on the nested default dict.\<close>

definition call_tree_add :: "(int pydict) pydict \<Rightarrow> string \<Rightarrow> string \<Rightarrow> (int pydict) pydict" where
  "call_tree_add t parent_name name =
     AList.update parent_name
       (dadd (case map_of t parent_name of None \<Rightarrow> [] | Some ch \<Rightarrow> ch) name 1) t"

text \<open>
  The inner loop over the stack (lines 93 to 103). The recursion is on the rest of the
  stack, so \<^verbatim>\<open>j + 1 < len(stack)\<close> holds exactly when the rest is not empty, and
  \<^verbatim>\<open>stack[j + 1]\<close> is its first entry.
\<close>

fun stack_loop :: "(int \<times> string) list \<Rightarrow> int \<Rightarrow> string set \<Rightarrow> analysis \<Rightarrow> analysis" where
  "stack_loop [] delta seen a = a"
| "stack_loop ((nid, name) # rest) delta seen a =
     (let a1 = (if name \<notin> seen
                then a\<lparr>total_samples := dadd (total_samples a) name 1,
                       total_time := dadd (total_time a) name delta\<rparr>
                else a);
          a2 = (case rest of
                  [] \<Rightarrow> a1
                | (pid, parent_name) # up \<Rightarrow>
                    a1\<lparr>call_tree := call_tree_add (call_tree a1) parent_name name\<rparr>)
      in stack_loop rest delta (insert name seen) a2)"

text \<open>The body of the loop over the samples (lines 81 to 103), for sample \<open>i\<close>.\<close>

definition analyze_sample :: "node_table \<Rightarrow> int list \<Rightarrow> nat \<Rightarrow> int \<Rightarrow> analysis \<Rightarrow> analysis" where
  "analyze_sample nodes time_deltas i node_id a =
     (let delta = (if i < length time_deltas then time_deltas ! i else 0);
          stack = get_full_stack nodes node_id
      in case stack of
           [] \<Rightarrow> a
         | (leaf_id, leaf_name) # up \<Rightarrow>
             stack_loop stack delta {}
               (a\<lparr>self_samples := dadd (self_samples a) leaf_name 1,
                  self_time := dadd (self_time a) leaf_name delta\<rparr>))"

fun samples_loop :: "node_table \<Rightarrow> int list \<Rightarrow> nat \<Rightarrow> int list \<Rightarrow> analysis \<Rightarrow> analysis" where
  "samples_loop nodes time_deltas i [] a = a"
| "samples_loop nodes time_deltas i (node_id # rest) a =
     samples_loop nodes time_deltas (Suc i) rest (analyze_sample nodes time_deltas i node_id a)"

definition analyze_samples :: "node_table \<Rightarrow> int list \<Rightarrow> int list \<Rightarrow> analysis" where
  "analyze_samples nodes samples time_deltas =
     samples_loop nodes time_deltas 0 samples empty_analysis"

subsection \<open>Report header\<close>





subsection \<open>Bottleneck classification\<close>

text \<open>
  \<^verbatim>\<open>str.lower\<close> on code points below 256: the ASCII capitals and the Latin-1
  capitals (all of 192 to 222 but the multiplication sign 215) move up by 32.
\<close>

definition lower_char :: "char \<Rightarrow> char" where
  "lower_char c =
     (let n = (of_char c :: nat)
      in if (65 \<le> n \<and> n \<le> 90) \<or> (192 \<le> n \<and> n \<le> 222 \<and> n \<noteq> 215)
         then char_of (n + 32) else c)"

definition lower :: "string \<Rightarrow> string" where
  "lower s = map lower_char s"











section \<open>analyze-webgpu-inspector.py: regular expressions\<close>

text \<open>
  The patterns of the script use literal text, greedy repetition of a one-character
  class (\<^verbatim>\<open>\d+\<close>, \<^verbatim>\<open>\s*\<close>, \<^verbatim>\<open>[^,]+\<close>), capturing groups and one alternation.
\<close>

datatype rx =
    Str string
  | Star "char \<Rightarrow> bool"
  | Plus "char \<Rightarrow> bool"
  | Seq rx rx
  | Alt rx rx
  | Grp rx

fun rx_seq :: "rx list \<Rightarrow> rx" where
  "rx_seq [] = Str []"
| "rx_seq [r] = r"
| "rx_seq (r # rs) = Seq r (rx_seq rs)"

text \<open>
  What is left of the input after a greedy \<open>class*\<close>, in the order in which a
  backtracking matcher tries it: the longest run first, then one character less at a
  time, down to the empty run. \<open>class+\<close> takes at least one character.
\<close>

fun star_rests :: "(char \<Rightarrow> bool) \<Rightarrow> string \<Rightarrow> string list" where
  "star_rests p [] = [[]]"
| "star_rests p (c # cs) = (if p c then star_rests p cs @ [c # cs] else [c # cs])"

fun plus_rests :: "(char \<Rightarrow> bool) \<Rightarrow> string \<Rightarrow> string list" where
  "plus_rests p [] = []"
| "plus_rests p (c # cs) = (if p c then star_rests p cs else [])"

text \<open>
  Every way in which the pattern matches a prefix of the input, in the order of
  preference of Python's backtracking matcher; each way is the rest of the input with
  the texts of the groups closed so far. The match that \<^verbatim>\<open>re\<close> reports at a position
  is the first of the list.
\<close>

fun rx_matches :: "rx \<Rightarrow> string \<Rightarrow> string list \<Rightarrow> (string \<times> string list) list" where
  "rx_matches (Str w) s g = (if prefix w s then [(drop (length w) s, g)] else [])"
| "rx_matches (Star p) s g = map (\<lambda>rest. (rest, g)) (star_rests p s)"
| "rx_matches (Plus p) s g = map (\<lambda>rest. (rest, g)) (plus_rests p s)"
| "rx_matches (Seq a b) s g =
     concat (map (\<lambda>(s', g'). rx_matches b s' g') (rx_matches a s g))"
| "rx_matches (Alt a b) s g = rx_matches a s g @ rx_matches b s g"
| "rx_matches (Grp a) s g =
     map (\<lambda>(s', g'). (s', g' @ [take (length s - length s') s])) (rx_matches a s g)"

text \<open>
  \<^verbatim>\<open>re.finditer\<close>: the matches from left to right, none overlapping another; each
  match is given as the list of its groups. After a match the scan goes on where the
  match ended, and without a match it moves on by one character. No pattern of the
  script matches the empty string; for a pattern that does, the scan moves on by one
  character.
\<close>

function finditer :: "rx \<Rightarrow> string \<Rightarrow> string list list" where
  "finditer r s =
     (case rx_matches r s [] of
        [] \<Rightarrow> (case s of [] \<Rightarrow> [] | c # cs \<Rightarrow> finditer r cs)
      | (rest, groups) # others \<Rightarrow>
          groups # (if length rest < length s then finditer r rest
                    else (case s of [] \<Rightarrow> [] | c # cs \<Rightarrow> finditer r cs)))"
  by pat_completeness auto
termination
  by (relation "measure (\<lambda>(r, s). length s)") auto

declare finditer.simps [simp del]

text \<open>\<^verbatim>\<open>match.group(n)\<close>; every pattern below has the groups that are read from it.\<close>

definition match_group :: "string list \<Rightarrow> nat \<Rightarrow> string" where
  "match_group g n = (if 0 < n \<and> n \<le> length g then g ! (n - 1) else [])"

text \<open>
  On code points below 256, \<^verbatim>\<open>\d\<close> matches the ten ASCII digits and \<^verbatim>\<open>\s\<close>
  matches tab to carriage return, the four separators 28 to 31, the space, 133 and 160.
\<close>

definition is_digit :: "char \<Rightarrow> bool" where
  "is_digit c = (c \<in> set ''0123456789'')"

definition is_space :: "char \<Rightarrow> bool" where
  "is_space c =
     (let n = (of_char c :: nat)
      in (9 \<le> n \<and> n \<le> 13) \<or> (28 \<le> n \<and> n \<le> 32) \<or> n = 133 \<or> n = 160)"

text \<open>The double quote character.\<close>

definition dq :: char where
  "dq = CHR 0x22"

subsection \<open>The patterns\<close>

text \<open>\<^verbatim>\<open>D_F(\d+)_\d+\<close>\<close>

definition frame_pattern :: rx where
  "frame_pattern = rx_seq [Str ''D_F'', Grp (Plus is_digit), Str ''_'', Plus is_digit]"

text \<open>\<^verbatim>\<open>\.draw\((\d+),(\d+),(\d+),(\d+)\)\<close>\<close>

definition draw_pattern :: rx where
  "draw_pattern =
     rx_seq [Str ''.draw('', Grp (Plus is_digit), Str '','', Grp (Plus is_digit), Str '','',
             Grp (Plus is_digit), Str '','', Grp (Plus is_digit), Str '')'']"

text \<open>\<^verbatim>\<open>\.drawIndirect\([^,]+,\s*(\d+)\)\<close>\<close>

definition draw_indirect_pattern :: rx where
  "draw_indirect_pattern =
     rx_seq [Str ''.drawIndirect('', Plus (\<lambda>c. c \<noteq> CHR '',''), Str '','', Star is_space,
             Grp (Plus is_digit), Str '')'']"

text \<open>\<^verbatim>\<open>\.dispatchWorkgroups\((\d+),(\d+),(\d+)\)\<close>\<close>

definition dispatch_pattern :: rx where
  "dispatch_pattern =
     rx_seq [Str ''.dispatchWorkgroups('', Grp (Plus is_digit), Str '','', Grp (Plus is_digit),
             Str '','', Grp (Plus is_digit), Str '')'']"

text \<open>The two buffer patterns: \<^verbatim>\<open>size\<close> before \<^verbatim>\<open>label\<close>, and \<^verbatim>\<open>label\<close> before \<^verbatim>\<open>size\<close>.\<close>

definition buffer_pattern :: rx where
  "buffer_pattern =
     rx_seq [Str ''createBuffer({'', Star (\<lambda>c. c \<noteq> CHR ''}''),
             Str ([dq] @ ''size'' @ [dq] @ '':''), Grp (Plus is_digit),
             Star (\<lambda>c. c \<noteq> CHR ''}''),
             Str ([dq] @ ''label'' @ [dq] @ '':'' @ [dq]), Grp (Star (\<lambda>c. c \<noteq> dq)),
             Str [dq]]"

definition buffer_pattern2 :: rx where
  "buffer_pattern2 =
     rx_seq [Str ''createBuffer({'', Star (\<lambda>c. c \<noteq> CHR ''}''),
             Str ([dq] @ ''label'' @ [dq] @ '':'' @ [dq]), Grp (Star (\<lambda>c. c \<noteq> dq)),
             Str [dq], Star (\<lambda>c. c \<noteq> CHR ''}''),
             Str ([dq] @ ''size'' @ [dq] @ '':''), Grp (Plus is_digit)]"

text \<open>\<^verbatim>\<open>create(Compute|Render)Pipeline\(\{[^}]*"label":"([^"]*)"\<close>\<close>

definition pipeline_pattern :: rx where
  "pipeline_pattern =
     rx_seq [Str ''create'', Grp (Alt (Str ''Compute'') (Str ''Render'')),
             Str ''Pipeline({'', Star (\<lambda>c. c \<noteq> CHR ''}''),
             Str ([dq] @ ''label'' @ [dq] @ '':'' @ [dq]), Grp (Star (\<lambda>c. c \<noteq> dq)),
             Str [dq]]"


section \<open>analyze-webgpu-inspector.py: parsing and summary\<close>

subsection \<open>Records\<close>

text \<open>
  An entry of \<^verbatim>\<open>results['draws']\<close>: a direct draw has the four counts and no
  \<^verbatim>\<open>type\<close> key, an indirect draw has the type tag \<^verbatim>\<open>indirect\<close> and an offset.
\<close>

datatype draw =
    Direct (vertex_count: int) (instance_count: int) (first_vertex: int) (first_instance: int)
  | Indirect (offset: int)

text \<open>\<^verbatim>\<open>'type' not in d\<close> and \<^verbatim>\<open>d.get('type') == 'indirect'\<close>.\<close>

fun is_direct :: "draw \<Rightarrow> bool" where
  "is_direct (Direct v i fv fi) = True"
| "is_direct (Indirect off) = False"

fun is_indirect :: "draw \<Rightarrow> bool" where
  "is_indirect (Direct v i fv fi) = False"
| "is_indirect (Indirect off) = True"

record dispatch =
  dispatch_x :: int
  dispatch_y :: int
  dispatch_z :: int
  total_workgroups :: int

record buffer =
  buffer_size :: int
  buffer_label :: string

record pipeline =
  pipeline_type :: string
  pipeline_label :: string

text \<open>
  The dict that \<^verbatim>\<open>compute_summary\<close> returns. A field is \<open>None\<close> when the key is
  absent. The per-frame rates are Python floats.
\<close>

record summary =
  draw_calls :: "int option"
  direct_draws :: "int option"
  indirect_draws :: "int option"
  total_vertices_drawn :: "int option"
  total_instances :: "int option"
  draws_per_frame :: "rat option"
  instances_per_frame :: "rat option"
  dispatch_calls :: "int option"
  dispatch_types :: "int pydict option"
  dispatches_per_frame :: "rat option"
  buffer_count :: "int option"
  total_buffer_memory :: "int option"
  unique_buffers :: "int pydict option"

definition empty_summary :: summary where
  "empty_summary =
     \<lparr>draw_calls = None, direct_draws = None, indirect_draws = None,
      total_vertices_drawn = None, total_instances = None, draws_per_frame = None,
      instances_per_frame = None, dispatch_calls = None, dispatch_types = None,
      dispatches_per_frame = None, buffer_count = None, total_buffer_memory = None,
      unique_buffers = None\<rparr>"

record results =
  draws :: "draw list"
  dispatches :: "dispatch list"
  buffers :: "buffer list"
  pipelines :: "pipeline list"
  frame_count :: int
  summary :: summary

subsection \<open>compute\_summary\<close>

text \<open>The draw call analysis (lines 98 to 116).\<close>

definition summarize_draws :: "results \<Rightarrow> summary \<Rightarrow> py_error + summary" where
  "summarize_draws r s =
     (if draws r \<noteq> [] then
        (let direct = filter is_direct (draws r);
             indirect = filter is_indirect (draws r);
             s1 = s\<lparr>draw_calls := Some (int (length (draws r))),
                    direct_draws := Some (int (length direct)),
                    indirect_draws := Some (int (length indirect))\<rparr>
         in if direct \<noteq> [] then
              (let total_vertices = sum_list (map (\<lambda>d. vertex_count d * instance_count d) direct);
                   total_inst = sum_list (map instance_count direct);
                   s2 = s1\<lparr>total_vertices_drawn := Some total_vertices,
                           total_instances := Some total_inst\<rparr>
               in if frame_count r > 0 then
                    (case py_truediv (int (length direct)) (frame_count r) of
                       Inl e \<Rightarrow> Inl e
                     | Inr per_frame \<Rightarrow>
                         (case py_truediv total_inst (frame_count r) of
                            Inl e \<Rightarrow> Inl e
                          | Inr inst_per_frame \<Rightarrow>
                              Inr (s2\<lparr>draws_per_frame := Some per_frame,
                                      instances_per_frame := Some inst_per_frame\<rparr>)))
                  else Inr s2)
            else Inr s1)
      else Inr s)"

text \<open>
  The key \<^verbatim>\<open>f"{d['x']}x{d['y']}x{d['z']}"\<close> and the loop that counts the keys.
\<close>

definition dispatch_key :: "dispatch \<Rightarrow> py_error + string" where
  "dispatch_key d =
     then_err (py_str (dispatch_x d)) (\<lambda>x.
     then_err (py_str (dispatch_y d)) (\<lambda>y.
     then_err (py_str (dispatch_z d)) (\<lambda>z.
     Inr (x @ ''x'' @ y @ ''x'' @ z))))"

fun count_keys :: "string list \<Rightarrow> int pydict \<Rightarrow> int pydict" where
  "count_keys [] counts = counts"
| "count_keys (k # ks) counts = count_keys ks (dadd counts k 1)"

text \<open>The dispatch analysis (lines 119 to 130).\<close>

definition summarize_dispatches :: "results \<Rightarrow> summary \<Rightarrow> py_error + summary" where
  "summarize_dispatches r s =
     (if dispatches r \<noteq> [] then
        (case map_err dispatch_key (dispatches r) of
           Inl e \<Rightarrow> Inl e
         | Inr keys \<Rightarrow>
             (let s1 = s\<lparr>dispatch_calls := Some (int (length (dispatches r))),
                         dispatch_types := Some (count_keys keys [])\<rparr>
              in if frame_count r > 0 then
                   (case py_truediv (int (length (dispatches r))) (frame_count r) of
                      Inl e \<Rightarrow> Inl e
                    | Inr per_frame \<Rightarrow> Inr (s1\<lparr>dispatches_per_frame := Some per_frame\<rparr>))
                 else Inr s1))
      else Inr s)"

text \<open>The loop that keeps the first size seen for each label (lines 136 to 138).\<close>

fun unique_buffers_loop :: "buffer list \<Rightarrow> int pydict \<Rightarrow> int pydict" where
  "unique_buffers_loop [] u = u"
| "unique_buffers_loop (b # bs) u =
     unique_buffers_loop bs
       (if buffer_label b \<notin> fst ` set u then AList.update (buffer_label b) (buffer_size b) u
        else u)"

text \<open>The buffer analysis (lines 133 to 142).\<close>

definition summarize_buffers :: "results \<Rightarrow> summary \<Rightarrow> summary" where
  "summarize_buffers r s =
     (if buffers r \<noteq> [] then
        (let u = unique_buffers_loop (buffers r) []
         in s\<lparr>buffer_count := Some (int (length u)),
              total_buffer_memory := Some (sum_list (map snd u)),
              unique_buffers := Some u\<rparr>)
      else s)"

definition compute_summary :: "results \<Rightarrow> py_error + summary" where
  "compute_summary r =
     (case summarize_draws r empty_summary of
        Inl e \<Rightarrow> Inl e
      | Inr s1 \<Rightarrow>
          (case summarize_dispatches r s1 of
             Inl e \<Rightarrow> Inl e
           | Inr s2 \<Rightarrow> Inr (summarize_buffers r s2)))"

subsection \<open>parse\_webgpu\_recording\<close>

text \<open>
  The frame count (lines 31 to 33) from the text of the recording. \<^verbatim>\<open>max\<close> is
  taken only of a list that is not empty, and \<^verbatim>\<open>int\<close> is applied to every match.
\<close>

definition parse_frame_count :: "string \<Rightarrow> py_error + int" where
  "parse_frame_count content =
     (let frame_matches = map (\<lambda>g. match_group g 1) (finditer frame_pattern content)
      in case map_err py_int frame_matches of
           Inl e \<Rightarrow> Inl e
         | Inr [] \<Rightarrow> Inr 0
         | Inr (n # ns) \<Rightarrow> Inr (fold max ns n + 1))"

text \<open>The records (lines 36 to 85), each from the groups of one match.\<close>

definition draw_of_match :: "string list \<Rightarrow> py_error + draw" where
  "draw_of_match g =
     then_err (py_int (match_group g 1)) (\<lambda>v.
     then_err (py_int (match_group g 2)) (\<lambda>i.
     then_err (py_int (match_group g 3)) (\<lambda>fv.
     then_err (py_int (match_group g 4)) (\<lambda>fi.
     Inr (Direct v i fv fi)))))"

definition indirect_of_match :: "string list \<Rightarrow> py_error + draw" where
  "indirect_of_match g = then_err (py_int (match_group g 1)) (\<lambda>off. Inr (Indirect off))"

definition dispatch_of_match :: "string list \<Rightarrow> py_error + dispatch" where
  "dispatch_of_match g =
     then_err (py_int (match_group g 1)) (\<lambda>x.
     then_err (py_int (match_group g 2)) (\<lambda>y.
     then_err (py_int (match_group g 3)) (\<lambda>z.
     Inr \<lparr>dispatch_x = x, dispatch_y = y, dispatch_z = z, total_workgroups = x * y * z\<rparr>)))"

definition buffer_of_match :: "string list \<Rightarrow> py_error + buffer" where
  "buffer_of_match g =
     then_err (py_int (match_group g 1)) (\<lambda>n.
     Inr \<lparr>buffer_size = n, buffer_label = match_group g 2\<rparr>)"

definition buffer_of_match2 :: "string list \<Rightarrow> py_error + buffer" where
  "buffer_of_match2 g =
     then_err (py_int (match_group g 2)) (\<lambda>n.
     Inr \<lparr>buffer_size = n, buffer_label = match_group g 1\<rparr>)"

definition parse_draws :: "string \<Rightarrow> py_error + draw list" where
  "parse_draws content =
     then_err (map_err draw_of_match (finditer draw_pattern content)) (\<lambda>direct.
     then_err (map_err indirect_of_match (finditer draw_indirect_pattern content)) (\<lambda>indirect.
     Inr (direct @ indirect)))"

definition parse_dispatches :: "string \<Rightarrow> py_error + dispatch list" where
  "parse_dispatches content = map_err dispatch_of_match (finditer dispatch_pattern content)"

definition parse_buffers :: "string \<Rightarrow> py_error + buffer list" where
  "parse_buffers content =
     then_err (map_err buffer_of_match (finditer buffer_pattern content)) (\<lambda>first.
     then_err (map_err buffer_of_match2 (finditer buffer_pattern2 content)) (\<lambda>second.
     Inr (first @ second)))"

definition parse_pipelines :: "string \<Rightarrow> pipeline list" where
  "parse_pipelines content =
     map (\<lambda>g. \<lparr>pipeline_type = lower (match_group g 1), pipeline_label = match_group g 2\<rparr>)
       (finditer pipeline_pattern content)"

text \<open>
  \<^verbatim>\<open>parse_webgpu_recording\<close> on the text read from the file: the frame count, the
  four record lists and the summary, in the order of the source; the first exception
  ends it.
\<close>

definition parse_webgpu_recording :: "string \<Rightarrow> py_error + results" where
  "parse_webgpu_recording content =
     then_err (parse_frame_count content) (\<lambda>fc.
     then_err (parse_draws content) (\<lambda>ds.
     then_err (parse_dispatches content) (\<lambda>dis.
     then_err (parse_buffers content) (\<lambda>bs.
       (let r = \<lparr>draws = ds, dispatches = dis, buffers = bs,
                  pipelines = parse_pipelines content, frame_count = fc,
                  summary = empty_summary\<rparr>
        in then_err (compute_summary r) (\<lambda>s. Inr (r\<lparr>summary := s\<rparr>)))))))"

subsection \<open>The draw configurations of print\_report\<close>

text \<open>The key \<^verbatim>\<open>f"vertices={d['vertex_count']}, instances={d['instance_count']}"\<close>.\<close>

definition draw_config_key :: "draw \<Rightarrow> py_error + string" where
  "draw_config_key d =
     then_err (py_str (vertex_count d)) (\<lambda>v.
     then_err (py_str (instance_count d)) (\<lambda>i.
     Inr (''vertices='' @ v @ '', instances='' @ i)))"

text \<open>
  The configurations in the order in which \<^verbatim>\<open>print_report\<close> prints them (lines 176
  to 185): counted per key over the direct draws, then sorted by falling count.
  \<^verbatim>\<open>sorted\<close> is stable, and so is \<open>sort_key\<close>.
\<close>

definition draw_configurations :: "results \<Rightarrow> py_error + (string \<times> int) list" where
  "draw_configurations r =
     then_err (map_err draw_config_key (filter is_direct (draws r))) (\<lambda>keys.
     Inr (sort_key (\<lambda>kc. - snd kc) (count_keys keys [])))"

section \<open>Example inputs\<close>

text \<open>Node \<open>1\<close> (function A) is called from node \<open>2\<close> (function B), the root.\<close>

definition nodes_ab :: node_table where
  "nodes_ab =
     [(1, \<lparr>functionName = ''A'', url = [], lineNumber = None, columnNumber = None,
           codeType = [], parent = Some 2\<rparr>),
      (2, \<lparr>functionName = ''B'', url = [], lineNumber = None, columnNumber = None,
           codeType = [], parent = None\<rparr>)]"

text \<open>A table whose parent links form a cycle: 1 to 2 and back.\<close>

definition nodes_cyc :: node_table where
  "nodes_cyc =
     [(1, \<lparr>functionName = ''A'', url = [], lineNumber = None, columnNumber = None,
           codeType = [], parent = Some 2\<rparr>),
      (2, \<lparr>functionName = ''B'', url = [], lineNumber = None, columnNumber = None,
           codeType = [], parent = Some 1\<rparr>)]"

text \<open>A recursive call: two frames of \<open>f\<close> under \<open>main\<close>.\<close>

definition nodes_rec :: node_table where
  "nodes_rec =
     [(1, \<lparr>functionName = ''f'', url = [], lineNumber = None, columnNumber = None,
           codeType = [], parent = Some 2\<rparr>),
      (2, \<lparr>functionName = ''f'', url = [], lineNumber = None, columnNumber = None,
           codeType = [], parent = Some 3\<rparr>),
      (3, \<lparr>functionName = ''main'', url = [], lineNumber = None, columnNumber = None,
           codeType = [], parent = None\<rparr>)]"

text \<open>A table that holds a node with id 0.\<close>

definition nodes_zero :: node_table where
  "nodes_zero =
     [(0, \<lparr>functionName = ''(root)'', url = [], lineNumber = None, columnNumber = None,
           codeType = [], parent = None\<rparr>)]"



section \<open>Properties of stack reconstruction\<close>

lemma get_full_stack_loop_extends:
  "\<exists>ext. get_full_stack_loop nodes current visited stack = stack @ ext
     \<and> distinct (map fst ext) \<and> fst ` set ext \<subseteq> fst ` set nodes - visited"
proof (induction nodes current visited stack rule: get_full_stack_loop.induct)
  case (1 nodes current visited stack)
  show ?case
  proof (cases current)
    case None
    then show ?thesis by simp
  next
    case (Some c)
    show ?thesis
    proof (cases "c \<noteq> 0 \<and> c \<notin> visited")
      case False
      with Some show ?thesis by auto
    next
      case live: True
      show ?thesis
      proof (cases "map_of nodes c")
        case None
        with Some live show ?thesis by simp
      next
        case (Some nd)
        from "1.IH" [OF \<open>current = Some c\<close> live Some]
        obtain ext where e:
          "get_full_stack_loop nodes (parent nd) (insert c visited)
             (stack @ [(c, functionName nd)]) = (stack @ [(c, functionName nd)]) @ ext"
          "distinct (map fst ext)" "fst ` set ext \<subseteq> fst ` set nodes - insert c visited"
          by blast
        from Some have "c \<in> fst ` set nodes"
          by (metis map_of_eq_None_iff option.distinct(1))
        with e live have "distinct (map fst ((c, functionName nd) # ext))"
          "fst ` set ((c, functionName nd) # ext) \<subseteq> fst ` set nodes - visited"
          by auto
        moreover have "get_full_stack_loop nodes current visited stack
                       = stack @ ((c, functionName nd) # ext)"
          using e(1) \<open>current = Some c\<close> live Some by simp
        ultimately show ?thesis by blast
      qed
    qed
  qed
qed

lemma get_full_stack_ext:
  "distinct (map fst (get_full_stack nodes node_id))
   \<and> fst ` set (get_full_stack nodes node_id) \<subseteq> fst ` set nodes"
proof -
  obtain ext where "get_full_stack_loop nodes (Some node_id) {} [] = [] @ ext"
    and "distinct (map fst ext)" and "fst ` set ext \<subseteq> fst ` set nodes - {}"
    using get_full_stack_loop_extends by blast
  then show ?thesis
    unfolding get_full_stack_def by (simp del: get_full_stack_loop.simps)
qed

lemma get_full_stack_distinct: "distinct (map fst (get_full_stack nodes node_id))"
  using get_full_stack_ext by blast

lemma get_full_stack_ids: "fst ` set (get_full_stack nodes node_id) \<subseteq> fst ` set nodes"
  using get_full_stack_ext by blast

lemma get_full_stack_length: "length (get_full_stack nodes node_id) \<le> card (fst ` set nodes)"
proof -
  have "length (get_full_stack nodes node_id) = length (map fst (get_full_stack nodes node_id))"
    by simp
  also have "\<dots> = card (set (map fst (get_full_stack nodes node_id)))"
    using get_full_stack_distinct by (simp only: distinct_card)
  also have "\<dots> \<le> card (fst ` set nodes)"
    using get_full_stack_ids [of nodes node_id] by (intro card_mono) auto
  finally show ?thesis .
qed

text \<open>
  Claim C2. \<open>get_full_stack\<close> is a total function, so the walk ends on every node
  table, cyclic ones included, and from every starting id. The stack it returns is no
  longer than the number of distinct ids of the table and repeats no id. The loop
  returns the stack built so far when the current id is null, when it is not in the
  table, and when it was visited before.
\<close>

theorem get_full_stack_bounded:
  "length (get_full_stack nodes node_id) \<le> card (fst ` set nodes)
   \<and> distinct (map fst (get_full_stack nodes node_id))
   \<and> get_full_stack_loop nodes None visited stack = stack
   \<and> (map_of nodes c = None \<longrightarrow> get_full_stack_loop nodes (Some c) visited stack = stack)
   \<and> (c \<in> visited \<longrightarrow> get_full_stack_loop nodes (Some c) visited stack = stack)"
  by (simp add: get_full_stack_length get_full_stack_distinct)

theorem get_full_stack_bounded_witness:
  "get_full_stack nodes_cyc 1 = [(1, ''A''), (2, ''B'')]
   \<and> length (get_full_stack nodes_cyc 1) \<le> card (fst ` set nodes_cyc)
   \<and> distinct (map fst (get_full_stack nodes_cyc 1))
   \<and> map_of nodes_cyc 7 = None
   \<and> get_full_stack_loop nodes_cyc (Some 7) {1} [(1, ''A'')] = [(1, ''A'')]
   \<and> (7::int) \<in> {1, 7}
   \<and> get_full_stack_loop nodes_cyc (Some 7) {1, 7} [(1, ''A'')] = [(1, ''A'')]"
proof -
  have a: "get_full_stack nodes_cyc 1 = [(1, ''A''), (2, ''B'')]"
    by (simp add: get_full_stack_def nodes_cyc_def)
  have b: "map_of nodes_cyc 7 = None" by (simp add: nodes_cyc_def)
  have c: "(7::int) \<in> {1, 7}" by simp
  from get_full_stack_bounded [of nodes_cyc 1 "{1}" "[(1, ''A'')]" 7]
    get_full_stack_bounded [of nodes_cyc 1 "{1, 7}" "[(1, ''A'')]" 7] a b c
  show ?thesis by blast
qed

section \<open>Properties of the aggregation\<close>

lemma dget_dadd: "dget (dadd d k x) n = (if n = k then dget d k + x else dget d n)"
  by (simp add: dget_def dadd_def update_conv')

lemma stack_loop_self:
  "self_time (stack_loop stack delta seen a) = self_time a
   \<and> self_samples (stack_loop stack delta seen a) = self_samples a"
  by (induction stack delta seen a rule: stack_loop.induct)
     (auto simp: Let_def split: list.splits)

lemma stack_loop_total_time:
  "dget (total_time (stack_loop stack delta seen a)) name =
     dget (total_time a) name + (if name \<in> snd ` set stack - seen then delta else 0)"
proof (induction stack delta seen a rule: stack_loop.induct)
  case (1 delta seen a)
  then show ?case by simp
next
  case (2 nid nm rest delta seen a)
  show ?case
    by (simp add: Let_def "2.IH" dget_dadd split: list.splits) (auto simp: image_iff)
qed

lemma stack_loop_total_samples:
  "dget (total_samples (stack_loop stack delta seen a)) name =
     dget (total_samples a) name + (if name \<in> snd ` set stack - seen then 1 else 0)"
proof (induction stack delta seen a rule: stack_loop.induct)
  case (1 delta seen a)
  then show ?case by simp
next
  case (2 nid nm rest delta seen a)
  show ?case
    by (simp add: Let_def "2.IH" dget_dadd split: list.splits) (auto simp: image_iff)
qed

lemma analyze_sample_total_time:
  "dget (total_time (analyze_sample nodes tds i node_id a)) name =
     dget (total_time a) name +
       (if name \<in> snd ` set (get_full_stack nodes node_id)
        then (if i < length tds then tds ! i else 0) else 0)"
  by (cases "get_full_stack nodes node_id")
     (simp_all add: analyze_sample_def Let_def stack_loop_total_time
        del: stack_loop.simps split: prod.splits)

lemma analyze_sample_total_samples:
  "dget (total_samples (analyze_sample nodes tds i node_id a)) name =
     dget (total_samples a) name +
       (if name \<in> snd ` set (get_full_stack nodes node_id) then 1 else 0)"
  by (cases "get_full_stack nodes node_id")
     (simp_all add: analyze_sample_def Let_def stack_loop_total_samples
        del: stack_loop.simps split: prod.splits)

lemma analyze_sample_self_time:
  "dget (self_time (analyze_sample nodes tds i node_id a)) name =
     dget (self_time a) name +
       (case get_full_stack nodes node_id of
          [] \<Rightarrow> 0
        | (leaf_id, leaf_name) # up \<Rightarrow>
            if name = leaf_name then (if i < length tds then tds ! i else 0) else 0)"
  by (cases "get_full_stack nodes node_id")
     (simp_all add: analyze_sample_def Let_def stack_loop_self dget_dadd
        del: stack_loop.simps split: prod.splits)

lemma analyze_sample_self_samples:
  "dget (self_samples (analyze_sample nodes tds i node_id a)) name =
     dget (self_samples a) name +
       (case get_full_stack nodes node_id of
          [] \<Rightarrow> 0
        | (leaf_id, leaf_name) # up \<Rightarrow> if name = leaf_name then 1 else 0)"
  by (cases "get_full_stack nodes node_id")
     (simp_all add: analyze_sample_def Let_def stack_loop_self dget_dadd
        del: stack_loop.simps split: prod.splits)

lemma analyze_sample_samples_le:
  assumes "dget (self_samples a) name \<le> dget (total_samples a) name"
  shows "dget (self_samples (analyze_sample nodes tds i node_id a)) name
         \<le> dget (total_samples (analyze_sample nodes tds i node_id a)) name"
  using assms
  by (cases "get_full_stack nodes node_id")
     (auto simp: analyze_sample_self_samples analyze_sample_total_samples split: prod.splits)

lemma analyze_sample_time_le:
  assumes "dget (self_time a) name \<le> dget (total_time a) name"
    and "\<forall>d\<in>set tds. 0 \<le> d"
  shows "dget (self_time (analyze_sample nodes tds i node_id a)) name
         \<le> dget (total_time (analyze_sample nodes tds i node_id a)) name"
proof -
  have "0 \<le> (if i < length tds then tds ! i else 0)"
    using assms(2) by simp
  with assms(1) show ?thesis
    by (cases "get_full_stack nodes node_id")
       (auto simp: analyze_sample_self_time analyze_sample_total_time split: prod.splits)
qed

lemma samples_loop_samples_le:
  "dget (self_samples a) name \<le> dget (total_samples a) name \<Longrightarrow>
   dget (self_samples (samples_loop nodes tds i samples a)) name
     \<le> dget (total_samples (samples_loop nodes tds i samples a)) name"
  by (induction samples arbitrary: i a) (simp_all add: analyze_sample_samples_le)

lemma samples_loop_time_le:
  "dget (self_time a) name \<le> dget (total_time a) name \<Longrightarrow> \<forall>d\<in>set tds. 0 \<le> d \<Longrightarrow>
   dget (self_time (samples_loop nodes tds i samples a)) name
     \<le> dget (total_time (samples_loop nodes tds i samples a)) name"
  by (induction samples arbitrary: i a) (simp_all add: analyze_sample_time_le)

lemma empty_analysis_le:
  "dget (self_time empty_analysis) name \<le> dget (total_time empty_analysis) name"
  "dget (self_samples empty_analysis) name \<le> dget (total_samples empty_analysis) name"
  by (simp_all add: empty_analysis_def dget_def)

lemmas trace_eval = analyze_samples_def analyze_sample_def get_full_stack_def
  empty_analysis_def dget_def dadd_def call_tree_add_def

text \<open>
  Claim C1, as stated, fails: a time delta is a Python integer read from the trace and
  may be negative. Sample 2 (stack B) with delta 0 and sample 1 (stack A, B) with delta
  -5 give B a self time of 0 and a total time of -5.
\<close>

theorem total_time_ge_self_time_counterexample:
  "\<not> dget (self_time (analyze_samples nodes_ab [2, 1] [0, - 5])) ''B''
       \<le> dget (total_time (analyze_samples nodes_ab [2, 1] [0, - 5])) ''B''"
  by (simp add: trace_eval nodes_ab_def)

text \<open>
  Claim C1, amended. For every node table and sample list, and every list of time
  deltas none of which is negative, the total time of every function name is at least
  its self time. The total sample count of every name is at least its self sample
  count for all inputs, negative deltas included.
\<close>

theorem total_time_ge_self_time:
  "((\<forall>d\<in>set time_deltas. 0 \<le> d) \<longrightarrow>
      dget (self_time (analyze_samples nodes samples time_deltas)) name
        \<le> dget (total_time (analyze_samples nodes samples time_deltas)) name)
   \<and> dget (self_samples (analyze_samples nodes samples time_deltas)) name
        \<le> dget (total_samples (analyze_samples nodes samples time_deltas)) name"
  unfolding analyze_samples_def
  using samples_loop_samples_le [OF empty_analysis_le(2)]
    samples_loop_time_le [OF empty_analysis_le(1)]
  by blast

theorem total_time_ge_self_time_witness:
  "dget (self_time (analyze_samples nodes_ab [2, 1] [3, 5])) ''B'' = 3
   \<and> dget (total_time (analyze_samples nodes_ab [2, 1] [3, 5])) ''B'' = 8
   \<and> dget (self_time (analyze_samples nodes_ab [2, 1] [3, 5])) ''B''
        \<le> dget (total_time (analyze_samples nodes_ab [2, 1] [3, 5])) ''B''
   \<and> dget (self_samples (analyze_samples nodes_ab [2, 1] [3, 5])) ''B''
        \<le> dget (total_samples (analyze_samples nodes_ab [2, 1] [3, 5])) ''B''"
proof -
  have nonneg: "\<forall>d\<in>set [3, 5 :: int]. 0 \<le> d" by simp
  have vals: "dget (self_time (analyze_samples nodes_ab [2, 1] [3, 5])) ''B'' = 3"
    "dget (total_time (analyze_samples nodes_ab [2, 1] [3, 5])) ''B'' = 8"
    by (simp_all add: trace_eval nodes_ab_def)
  from total_time_ge_self_time [of "[3, 5]" nodes_ab "[2, 1]" "''B''"] nonneg vals
  show ?thesis by blast
qed

lemma samples_loop_total_time:
  "dget (total_time (samples_loop nodes tds i samples a)) name =
     dget (total_time a) name +
       (\<Sum>k<length samples.
          if name \<in> snd ` set (get_full_stack nodes (samples ! k))
          then (if i + k < length tds then tds ! (i + k) else 0) else 0)"
proof (induction samples arbitrary: i a)
  case Nil
  then show ?case by simp
next
  case (Cons node_id samples)
  show ?case
    by (simp add: Cons.IH analyze_sample_total_time sum.lessThan_Suc_shift
          del: sum.lessThan_Suc cong: if_cong)
qed

lemma samples_loop_total_samples:
  "dget (total_samples (samples_loop nodes tds i samples a)) name =
     dget (total_samples a) name +
       (\<Sum>k<length samples.
          if name \<in> snd ` set (get_full_stack nodes (samples ! k)) then 1 else 0)"
proof (induction samples arbitrary: i a)
  case Nil
  then show ?case by simp
next
  case (Cons node_id samples)
  show ?case
    by (simp add: Cons.IH analyze_sample_total_samples sum.lessThan_Suc_shift
          del: sum.lessThan_Suc)
qed

text \<open>
  Claim C3. The aggregator gives every function name, as its total time, the sum of
  the time deltas (0 where the delta list is too short) of the samples in whose stack
  the name occurs, and as its total sample count the number of those samples: each
  sample counts once for a name, however many frames of its stack carry the name.
  Sample by sample: one sample adds its delta and 1 to every name of its stack and
  nothing to any other name; an empty stack has no names.
\<close>

theorem total_counts_each_name_once:
  "dget (total_time (analyze_samples nodes samples time_deltas)) name =
     (\<Sum>k<length samples.
        if name \<in> snd ` set (get_full_stack nodes (samples ! k))
        then (if k < length time_deltas then time_deltas ! k else 0) else 0)
   \<and> dget (total_samples (analyze_samples nodes samples time_deltas)) name =
     (\<Sum>k<length samples.
        if name \<in> snd ` set (get_full_stack nodes (samples ! k)) then 1 else 0)
   \<and> dget (total_time (analyze_sample nodes time_deltas i node_id a)) name =
     dget (total_time a) name +
       (if name \<in> snd ` set (get_full_stack nodes node_id)
        then (if i < length time_deltas then time_deltas ! i else 0) else 0)
   \<and> dget (total_samples (analyze_sample nodes time_deltas i node_id a)) name =
     dget (total_samples a) name +
       (if name \<in> snd ` set (get_full_stack nodes node_id) then 1 else 0)"
proof -
  have z: "dget (total_time empty_analysis) name = 0"
    "dget (total_samples empty_analysis) name = 0"
    by (simp_all add: empty_analysis_def dget_def)
  have "dget (total_time (analyze_samples nodes samples time_deltas)) name =
     (\<Sum>k<length samples.
        if name \<in> snd ` set (get_full_stack nodes (samples ! k))
        then (if k < length time_deltas then time_deltas ! k else 0) else 0)"
    unfolding analyze_samples_def samples_loop_total_time z by (simp cong: if_cong)
  moreover have "dget (total_samples (analyze_samples nodes samples time_deltas)) name =
     (\<Sum>k<length samples.
        if name \<in> snd ` set (get_full_stack nodes (samples ! k)) then 1 else 0)"
    unfolding analyze_samples_def samples_loop_total_samples z by simp
  ultimately show ?thesis
    by (simp only: analyze_sample_total_time analyze_sample_total_samples simp_thms)
qed

theorem total_counts_each_name_once_witness:
  "get_full_stack nodes_rec 1 = [(1, ''f''), (2, ''f''), (3, ''main'')]
   \<and> get_full_stack nodes_rec 3 = [(3, ''main'')]
   \<and> dget (total_time (analyze_samples nodes_rec [1, 3, 1] [7, 2])) ''f'' = 7
   \<and> dget (total_samples (analyze_samples nodes_rec [1, 3, 1] [7, 2])) ''f'' = 2
   \<and> dget (total_time (analyze_samples nodes_rec [1, 3, 1] [7, 2])) ''main'' = 9
   \<and> dget (total_samples (analyze_samples nodes_rec [1, 3, 1] [7, 2])) ''main'' = 3"
proof -
  have st: "get_full_stack nodes_rec 1 = [(1, ''f''), (2, ''f''), (3, ''main'')]"
    "get_full_stack nodes_rec 3 = [(3, ''main'')]"
    by (simp_all add: get_full_stack_def nodes_rec_def)
  have three: "{..<3::nat} = {0, 1, 2}" by auto
  from total_counts_each_name_once [of nodes_rec "[1, 3, 1]" "[7, 2]" "''f''" 0 1 empty_analysis]
  have f: "dget (total_time (analyze_samples nodes_rec [1, 3, 1] [7, 2])) ''f'' = 7"
    "dget (total_samples (analyze_samples nodes_rec [1, 3, 1] [7, 2])) ''f'' = 2"
    by (simp_all add: st three)
  from total_counts_each_name_once [of nodes_rec "[1, 3, 1]" "[7, 2]" "''main''" 0 1 empty_analysis]
  have m: "dget (total_time (analyze_samples nodes_rec [1, 3, 1] [7, 2])) ''main'' = 9"
    "dget (total_samples (analyze_samples nodes_rec [1, 3, 1] [7, 2])) ''main'' = 3"
    by (simp_all add: st three)
  from st f m show ?thesis by blast
qed

text \<open>
  Claim C10. Started from node id 0, stack reconstruction returns the empty stack
  whatever the table holds, a node with id 0 included: the loop condition is false for
  0 as it is for a null parent. A sample whose node id is 0 leaves every aggregate as
  it was, and the loop over the samples goes on with the next sample.
\<close>

theorem node_id_zero_skipped:
  "get_full_stack nodes 0 = []
   \<and> analyze_sample nodes time_deltas i 0 a = a
   \<and> samples_loop nodes time_deltas i (0 # rest) a
       = samples_loop nodes time_deltas (Suc i) rest a"
  by (simp add: get_full_stack_def analyze_sample_def)

theorem node_id_zero_skipped_witness:
  "map_of nodes_zero 0 \<noteq> None
   \<and> get_full_stack nodes_zero 0 = []
   \<and> analyze_samples nodes_zero [0, 0] [4, 6] = empty_analysis"
proof -
  have "map_of nodes_zero 0 \<noteq> None" by (simp add: nodes_zero_def)
  with node_id_zero_skipped [of nodes_zero "[4, 6]" 0 empty_analysis "[0]"]
    node_id_zero_skipped [of nodes_zero "[4, 6]" 1 empty_analysis "[]"]
  show ?thesis by (simp add: analyze_samples_def)
qed

section \<open>Properties of the report\<close>




section \<open>Properties of the float operations\<close>

lemma int_bitlen_rat:
  assumes "0 < (a::int)"
  shows "(2::rat) powi (bitlen a - 1) \<le> of_int a" and "(of_int a :: rat) < 2 powi (bitlen a)"
proof -
  from bitlen_bounds [OF assms] have lo: "2 ^ nat (bitlen a - 1) \<le> a" and hi: "a < 2 ^ nat (bitlen a)"
    by auto
  from assms have pos: "1 \<le> bitlen a" by (auto simp: bitlen_alt_def)
  have "(2::rat) powi (bitlen a - 1) = 2 ^ nat (bitlen a - 1)"
    using pos by (simp add: power_int_def)
  also have "\<dots> = of_int (2 ^ nat (bitlen a - 1))" by simp
  also have "\<dots> \<le> of_int a" using lo by (simp only: of_int_le_iff)
  finally show "(2::rat) powi (bitlen a - 1) \<le> of_int a" .
  have "(of_int a :: rat) < of_int (2 ^ nat (bitlen a))" using hi by (simp only: of_int_less_iff)
  also have "\<dots> = 2 ^ nat (bitlen a)" by simp
  also have "\<dots> = 2 powi (bitlen a)" using pos by (simp add: power_int_def)
  finally show "(of_int a :: rat) < 2 powi (bitlen a)" .
qed

lemma ilog2_bounds:
  assumes "0 < x"
  shows "2 powi (ilog2 x) \<le> x" and "x < 2 powi (ilog2 x + 1)"
proof -
  define a where "a = fst (quotient_of x)"
  define b where "b = snd (quotient_of x)"
  define k where "k = bitlen a - bitlen b"
  have q: "quotient_of x = (a, b)" by (simp add: a_def b_def)
  have b: "0 < b" using quotient_of_denom_pos [OF q] .
  have x: "x = of_int a / of_int b" using quotient_of_div [OF q] .
  have a: "0 < a"
    using assms b unfolding x by (simp add: zero_less_divide_iff)
  have bq: "(0::rat) < of_int b" using b by simp
  have up: "x < 2 powi (k + 1)"
  proof -
    have "of_int a < (2::rat) powi (bitlen a)" by (rule int_bitlen_rat(2) [OF a])
    also have "\<dots> = 2 powi (k + 1) * 2 powi (bitlen b - 1)"
      by (simp add: k_def power_int_add [symmetric])
    also have "\<dots> \<le> 2 powi (k + 1) * of_int b"
      using int_bitlen_rat(1) [OF b] by (intro mult_left_mono) simp_all
    finally show ?thesis unfolding x using bq by (simp add: pos_divide_less_eq)
  qed
  have lo: "2 powi (k - 1) < x"
  proof -
    have "(2::rat) powi (k - 1) * of_int b < 2 powi (k - 1) * 2 powi (bitlen b)"
      using int_bitlen_rat(2) [OF b] by (intro mult_strict_left_mono) simp_all
    also have "\<dots> = 2 powi (bitlen a - 1)"
      by (simp add: k_def power_int_add [symmetric])
    also have "\<dots> \<le> of_int a" by (rule int_bitlen_rat(1) [OF a])
    finally show ?thesis unfolding x using bq by (simp add: pos_less_divide_eq)
  qed
  have il: "ilog2 x = (if 2 powi k \<le> x then k else k - 1)"
    by (simp add: ilog2_def Let_def k_def a_def b_def)
  show "2 powi (ilog2 x) \<le> x"
    unfolding il using lo by auto
  show "x < 2 powi (ilog2 x + 1)"
    unfolding il using up by auto
qed

lemma powi2_mono: "a \<le> b \<Longrightarrow> (2::rat) powi a \<le> 2 powi b"
  by (rule power_int_increasing) simp_all

lemma ilog2_unique:
  assumes "0 < x" and "2 powi e \<le> x" and "x < 2 powi (e + 1)"
  shows "ilog2 x = e"
proof (rule antisym)
  show "ilog2 x \<le> e"
  proof (rule ccontr)
    assume "\<not> ilog2 x \<le> e"
    then have "e + 1 \<le> ilog2 x" by simp
    then have "(2::rat) powi (e + 1) \<le> 2 powi (ilog2 x)" by (rule powi2_mono)
    with ilog2_bounds(1) [OF assms(1)] assms(3) show False by simp
  qed
  show "e \<le> ilog2 x"
  proof (rule ccontr)
    assume "\<not> e \<le> ilog2 x"
    then have "ilog2 x + 1 \<le> e" by simp
    then have "(2::rat) powi (ilog2 x + 1) \<le> 2 powi e" by (rule powi2_mono)
    with ilog2_bounds(2) [OF assms(1)] assms(2) show False by simp
  qed
qed

lemma ilog2_mono:
  assumes "0 < x" and "x \<le> y"
  shows "ilog2 x \<le> ilog2 y"
proof (rule ccontr)
  assume "\<not> ilog2 x \<le> ilog2 y"
  then have "ilog2 y + 1 \<le> ilog2 x" by simp
  then have "(2::rat) powi (ilog2 y + 1) \<le> 2 powi (ilog2 x)" by (rule powi2_mono)
  moreover have "0 < y" using assms by simp
  ultimately show False
    using ilog2_bounds(1) [OF assms(1)] ilog2_bounds(2) [of y] assms(2) by simp
qed

lemma round_half_even_nearest:
  assumes "\<bar>r - of_int m\<bar> < 1 / 2"
  shows "round_half_even r = m"
proof -
  from assms have "of_int m - 1 / 2 < r" "r < of_int m + 1 / 2" by linarith+
  then consider "\<lfloor>r\<rfloor> = m" "r - of_int m < 1 / 2" | "\<lfloor>r\<rfloor> = m - 1" "1 / 2 < r - of_int (m - 1)"
    by (cases "of_int m \<le> r") (auto simp: floor_eq_iff)
  then show ?thesis
    by cases (simp_all add: round_half_even_def Let_def)
qed

lemma round_half_even_int [simp]: "round_half_even (of_int m) = m"
  by (rule round_half_even_nearest) simp

lemma round_half_even_mono:
  assumes "a \<le> b"
  shows "round_half_even a \<le> round_half_even b"
proof -
  have lo: "\<lfloor>r\<rfloor> \<le> round_half_even r" and hi: "round_half_even r \<le> \<lfloor>r\<rfloor> + 1" for r
    by (simp_all add: round_half_even_def Let_def)
  from assms have fl: "\<lfloor>a\<rfloor> \<le> \<lfloor>b\<rfloor>" by (rule floor_mono)
  show ?thesis
  proof (cases "\<lfloor>a\<rfloor> = \<lfloor>b\<rfloor>")
    case True
    then have "a - of_int \<lfloor>a\<rfloor> \<le> b - of_int \<lfloor>b\<rfloor>" using assms by simp
    then show ?thesis
      using True by (auto simp: round_half_even_def Let_def)
  next
    case False
    with fl have "\<lfloor>a\<rfloor> + 1 \<le> \<lfloor>b\<rfloor>" by simp
    with hi [of a] lo [of b] show ?thesis by simp
  qed
qed

lemma powi_split: "(2::rat) powi a * 2 powi b = 2 powi (a + b)"
  by (simp add: power_int_add)

lemma round_binary64_pos:
  assumes "0 < x"
  shows "round_binary64 x =
           of_int (round_half_even (x / 2 powi (max (ilog2 x) (- 1022) - 52)))
             * 2 powi (max (ilog2 x) (- 1022) - 52)"
  using assms by (simp add: round_binary64_def Let_def)

lemma round_binary64_minus: "round_binary64 (- x) = - round_binary64 x"
  by (simp add: round_binary64_def Let_def sgn_minus)

lemma round_binary64_zero [simp]: "round_binary64 0 = 0"
  by (simp add: round_binary64_def)

lemma round_binary64_spec:
  assumes "0 < x" and "2 powi e \<le> x" and "x < 2 powi (e + 1)"
    and "\<bar>x / 2 powi (max e (- 1022) - 52) - of_int m\<bar> < 1 / 2"
  shows "round_binary64 x = of_int m * 2 powi (max e (- 1022) - 52)"
proof -
  have e: "ilog2 x = e" by (rule ilog2_unique [OF assms(1-3)])
  show ?thesis
    unfolding round_binary64_pos [OF assms(1)] e
    using round_half_even_nearest [OF assms(4)] by simp
qed

lemma round_half_even_nonneg: "0 \<le> r \<Longrightarrow> 0 \<le> round_half_even r"
  using round_half_even_mono [of 0 r] round_half_even_int [of 0] by simp

lemma round_binary64_nonneg:
  assumes "0 \<le> x"
  shows "0 \<le> round_binary64 x"
proof (cases "x = 0")
  case True
  then show ?thesis by simp
next
  case False
  with assms have pos: "0 < x" by simp
  have "0 \<le> x / 2 powi (max (ilog2 x) (- 1022) - 52)"
    using pos by simp
  then have "0 \<le> round_half_even (x / 2 powi (max (ilog2 x) (- 1022) - 52))"
    by (rule round_half_even_nonneg)
  then show ?thesis
    unfolding round_binary64_pos [OF pos] by simp
qed

lemma round_binary64_mono_pos:
  assumes "0 < x" and "x \<le> y"
  shows "round_binary64 x \<le> round_binary64 y"
proof -
  from assms have ypos: "0 < y" by simp
  define Ex where "Ex = max (ilog2 x) (- 1022)"
  define Ey where "Ey = max (ilog2 y) (- 1022)"
  have le: "Ex \<le> Ey"
    unfolding Ex_def Ey_def using ilog2_mono [OF assms] by simp
  have rx: "round_binary64 x = of_int (round_half_even (x / 2 powi (Ex - 52))) * 2 powi (Ex - 52)"
    unfolding Ex_def by (rule round_binary64_pos [OF assms(1)])
  have ry: "round_binary64 y = of_int (round_half_even (y / 2 powi (Ey - 52))) * 2 powi (Ey - 52)"
    unfolding Ey_def by (rule round_binary64_pos [OF ypos])
  show ?thesis
  proof (cases "Ex = Ey")
    case True
    have "x / 2 powi (Ex - 52) \<le> y / 2 powi (Ex - 52)"
      using assms(2) by (simp add: divide_right_mono)
    then have "round_half_even (x / 2 powi (Ex - 52)) \<le> round_half_even (y / 2 powi (Ex - 52))"
      by (rule round_half_even_mono)
    then show ?thesis
      unfolding rx ry True [symmetric] by (simp add: mult_right_mono)
  next
    case False
    with le have lt: "Ex + 1 \<le> Ey" by simp
    then have Ey: "Ey = ilog2 y" unfolding Ey_def Ex_def by simp
    have "x < 2 powi (ilog2 x + 1)" by (rule ilog2_bounds(2) [OF assms(1)])
    also have "\<dots> \<le> 2 powi (Ex + 1)" unfolding Ex_def by (rule powi2_mono) simp
    also have "\<dots> = 2 powi 53 * 2 powi (Ex - 52)"
      using powi_split [of 53 "Ex - 52"] by (simp add: add.commute)
    finally have "x / 2 powi (Ex - 52) \<le> 2 powi 53"
      by (simp add: pos_divide_le_eq)
    also have "(2::rat) powi 53 = of_int (2 ^ 53)" by simp
    finally have "round_half_even (x / 2 powi (Ex - 52)) \<le> round_half_even (of_int (2 ^ 53))"
      by (rule round_half_even_mono)
    then have "round_half_even (x / 2 powi (Ex - 52)) \<le> 2 ^ 53"
      by (simp only: round_half_even_int)
    then have "(of_int (round_half_even (x / 2 powi (Ex - 52))) :: rat) \<le> of_int (2 ^ 53)"
      by (simp only: of_int_le_iff)
    then have "round_binary64 x \<le> of_int (2 ^ 53) * 2 powi (Ex - 52)"
      unfolding rx by (rule mult_right_mono) simp
    also have "\<dots> = 2 powi 53 * 2 powi (Ex - 52)" by simp
    also have "\<dots> = 2 powi (Ex + 1)" using powi_split [of 53 "Ex - 52"] by (simp add: add.commute)
    also have "\<dots> \<le> 2 powi Ey" using lt by (rule powi2_mono)
    finally have up: "round_binary64 x \<le> 2 powi Ey" .
    have "(2::rat) powi 52 * 2 powi (Ey - 52) = 2 powi Ey"
      using powi_split [of 52 "Ey - 52"] by (simp add: add.commute)
    also have "\<dots> \<le> y" unfolding Ey by (rule ilog2_bounds(1) [OF ypos])
    finally have "(2::rat) powi 52 \<le> y / 2 powi (Ey - 52)"
      by (simp add: pos_le_divide_eq)
    moreover have "(2::rat) powi 52 = of_int (2 ^ 52)" by simp
    ultimately have "of_int (2 ^ 52) \<le> y / 2 powi (Ey - 52)" by simp
    then have "round_half_even (of_int (2 ^ 52)) \<le> round_half_even (y / 2 powi (Ey - 52))"
      by (rule round_half_even_mono)
    then have "2 ^ 52 \<le> round_half_even (y / 2 powi (Ey - 52))"
      by (simp only: round_half_even_int)
    then have "(of_int (2 ^ 52) :: rat) \<le> of_int (round_half_even (y / 2 powi (Ey - 52)))"
      by (simp only: of_int_le_iff)
    then have "of_int (2 ^ 52) * 2 powi (Ey - 52) \<le> round_binary64 y"
      unfolding ry by (rule mult_right_mono) simp
    moreover have "of_int (2 ^ 52) * (2::rat) powi (Ey - 52) = 2 powi Ey"
    proof -
      have "of_int (2 ^ 52) * (2::rat) powi (Ey - 52) = 2 powi 52 * 2 powi (Ey - 52)" by simp
      also have "\<dots> = 2 powi Ey" using powi_split [of 52 "Ey - 52"] by (simp add: add.commute)
      finally show ?thesis .
    qed
    ultimately have "2 powi Ey \<le> round_binary64 y" by simp
    with up show ?thesis by simp
  qed
qed

lemma round_binary64_mono:
  assumes "x \<le> y"
  shows "round_binary64 x \<le> round_binary64 y"
proof -
  consider "0 < x" | "x \<le> 0" "0 \<le> y" | "y < 0" using assms by linarith
  then show ?thesis
  proof cases
    case 1
    then show ?thesis using assms by (rule round_binary64_mono_pos)
  next
    case 2
    have "0 \<le> round_binary64 (- x)" using 2(1) by (intro round_binary64_nonneg) simp
    then have "round_binary64 x \<le> 0" by (simp add: round_binary64_minus)
    with round_binary64_nonneg [OF 2(2)] show ?thesis by simp
  next
    case 3
    then have "0 < - y" "- y \<le> - x" using assms by simp_all
    then have "round_binary64 (- y) \<le> round_binary64 (- x)" by (rule round_binary64_mono_pos)
    then show ?thesis by (simp add: round_binary64_minus)
  qed
qed

lemma round_binary64_power:
  assumes "- 1022 \<le> e"
  shows "round_binary64 (2 powi e) = 2 powi e"
proof -
  have m: "max e (- 1022) = e" using assms by simp
  have d: "(2::rat) powi e / 2 powi (e - 52) = of_int (2 ^ 52)"
    by (simp add: power_int_diff [symmetric])
  have "round_binary64 (2 powi e) = of_int (2 ^ 52) * 2 powi (max e (- 1022) - 52)"
    by (rule round_binary64_spec [where e = e]) (simp_all add: m d power_int_strict_increasing del: of_int_power)
  also have "\<dots> = 2 powi 52 * 2 powi (e - 52)" by (simp add: m)
  also have "\<dots> = 2 powi e" using powi_split [of 52 "e - 52"] by (simp add: add.commute)
  finally show ?thesis .
qed











lemma py_truediv_not_zero_error: "b \<noteq> 0 \<Longrightarrow> py_truediv a b \<noteq> Inl ZeroDivisionError"
  by (simp add: py_truediv_def Let_def)


section \<open>Properties of the bottleneck classification\<close>











lemma py_truediv_overflow:
  assumes "b \<noteq> 0" and "float_limit \<le> \<bar>(of_int a :: rat) / of_int b\<bar>"
  shows "py_truediv a b = Inl OverflowError"
proof -
  let ?x = "(of_int a :: rat) / of_int b"
  have lim: "round_binary64 float_limit = float_limit"
    unfolding float_limit_def by (rule round_binary64_power) simp
  have "float_limit \<le> \<bar>round_binary64 ?x\<bar>"
  proof (cases "0 \<le> ?x")
    case True
    with assms(2) have "float_limit \<le> ?x" by simp
    from round_binary64_mono [OF this] lim show ?thesis by simp
  next
    case False
    with assms(2) have "?x \<le> - float_limit" by simp
    from round_binary64_mono [OF this] lim have "round_binary64 ?x \<le> - float_limit"
      by (simp add: round_binary64_minus)
    then show ?thesis by simp
  qed
  with assms(1) show ?thesis by (simp add: py_truediv_def Let_def)
qed






end
